theory Spec2Isabelle
  imports Main "HOL-Library.Word" "HOL-Library.Multiset"
begin

section \<open>The sparse Patricia-Merkle trie of \<open>ledger/trie/trie.go\<close>\<close>

subsection \<open>Data model\<close>

text \<open>
  Go's \<open>uint8\<close> is \<open>8 word\<close>: the depth counter, the extension's bit count and the
  counters of the comparison loop all wrap around modulo 256. A \<open>[32]byte\<close> hash is a
  \<open>256 word\<close>. A \<open>ledger.Path\<close> is a \<open>[32]byte\<close> array that the code always slices
  (\<open>path[:]\<close>); an extension stores such a slice, and the code takes its \<open>len\<close>. Both are
  byte lists here, and the length 32 of a \<open>ledger.Path\<close> is a hypothesis wherever it
  matters.
\<close>

type_synonym byte = "8 word"
type_synonym hash32 = "256 word"

datatype Payload = Payload (Key: "byte list") (Value: "byte list")

text \<open>
  The interface \<open>Node\<close> holds \<open>nil\<close>, a \<open>*Leaf\<close>, an \<open>*Extension\<close> or a \<open>*Branch\<close>. The fields
  are the ones \<open>Insert\<close> assigns: a leaf has \<open>hash\<close> and \<open>payload\<close>; an extension has \<open>hash\<close>,
  \<open>dirty\<close>, \<open>path\<close>, \<open>count\<close> and \<open>child\<close>; a branch has \<open>hash\<close>, \<open>dirty\<close>, \<open>left\<close> and \<open>right\<close>.
  The trie is a tree: no node is reachable through two edges.
\<close>

datatype Node =
    NilNode
  | Leaf hash32 hash32
  | Extension hash32 bool "byte list" byte Node
  | Branch hash32 bool Node Node

text \<open>A run-time panic of the Go program is a value.\<close>

datatype panic = NilPointerDereference | IndexOutOfRange | NilInterfaceConversion

text \<open>
  The hash functions come from other modules (\<open>flow-go/ledger\<close>, \<open>blake3\<close>) and the \<open>Hash\<close>
  method of branches and extensions is not part of this file: they are parameters of
  the model, collected in one record. \<open>hash.Hash(path)\<close> is a type conversion.
\<close>

record ext =
  ComputeCompactValue :: "byte list \<Rightarrow> byte list \<Rightarrow> nat \<Rightarrow> hash32"
  Sum256 :: "byte list \<Rightarrow> hash32"
  GetDefaultHashForHeight :: "nat \<Rightarrow> hash32"
  InteriorHash :: "Node \<Rightarrow> hash32"

text \<open>
  The payload store \<open>dps.Store\<close> is referenced by the trie; \<open>Retrieve\<close> returns the payload
  saved under a key or an error. It is a map from keys to payloads. The logger is left out.
\<close>

record Trie =
  root :: Node
  store :: "hash32 \<rightharpoonup> Payload"

definition maxDepth :: byte where
  "maxDepth = 255"

definition NodeMaxHeight :: nat where
  "NodeMaxHeight = 256"

definition NewEmptyTrie :: "(hash32 \<rightharpoonup> Payload) \<Rightarrow> Trie" where
  "NewEmptyTrie s = \<lparr>root = NilNode, store = s\<rparr>"

definition NewTrie :: "Node \<Rightarrow> (hash32 \<rightharpoonup> Payload) \<Rightarrow> Trie" where
  "NewTrie r s = \<lparr>root = r, store = s\<rparr>"

definition RootNode :: "Trie \<Rightarrow> Node" where
  "RootNode t = root t"

definition Store :: "Trie \<Rightarrow> (hash32 \<rightharpoonup> Payload)" where
  "Store t = store t"

text \<open>
  \<open>bitutils.Bit(b, idx)\<close> reads \<open>b[idx>>3]\<close>, shifts it right by \<open>7 - (idx & 7)\<close> and masks
  the lowest bit: bit 0 is the most significant bit of the first byte. Indexing past the
  end of the slice panics.
\<close>

definition Bit :: "byte list \<Rightarrow> nat \<Rightarrow> panic + nat" where
  "Bit b idx =
     (if idx div 8 < length b
      then Inr ((unat (b ! (idx div 8)) div 2 ^ (7 - idx mod 8)) mod 2)
      else Inl IndexOutOfRange)"

text \<open>
  Modelled from the spec: the method \<open>Hash\<close> of \<open>*Leaf\<close> is not in this file. The spec's
  leaf holds "a precomputed 32-byte compact hash (the leaf's contribution to the Merkle
  root)" next to its payload key, and the root hash of a trie is the \<open>Hash()\<close> of its root
  node, so \<open>Hash\<close> of a leaf is its field \<open>hash\<close>.
\<close>

definition leaf_Hash :: "hash32 \<Rightarrow> hash32 \<Rightarrow> hash32" where
  "leaf_Hash h k = h"

definition RootHash :: "ext \<Rightarrow> Trie \<Rightarrow> hash32" where
  "RootHash x t =
     (case root t of
        NilNode \<Rightarrow> GetDefaultHashForHeight x NodeMaxHeight
      | Leaf h k \<Rightarrow> leaf_Hash h k
      | n \<Rightarrow> InteriorHash x n)"

subsection \<open>Counting the common bits\<close>

text \<open>
  The loop \<open>for i := depth; i < depth+node.count; i++\<close> of \<open>Insert\<close> and \<open>read\<close>, with
  \<open>bound = depth + node.count\<close> computed in \<open>uint8\<close>. It leaves with \<open>break\<close> at the first
  differing bit.
\<close>

function common_loop :: "byte list \<Rightarrow> byte list \<Rightarrow> byte \<Rightarrow> byte \<Rightarrow> byte \<Rightarrow> panic + byte" where
  "common_loop p np i bound common =
     (if i < bound
      then (case Bit p (unat i) of
              Inl e \<Rightarrow> Inl e
            | Inr a \<Rightarrow>
                (case Bit np (unat i) of
                   Inl e \<Rightarrow> Inl e
                 | Inr b \<Rightarrow>
                     if a \<noteq> b then Inr common
                     else common_loop p np (i + 1) bound (common + 1)))
      else Inr common)"
  by pat_completeness auto
termination
proof (relation "measure (\<lambda>(p, np, i, bound, common). unat bound - unat i)")
  show "wf (measure (\<lambda>(p, np, i, bound, common). unat bound - unat i))"
    by simp
next
  fix p np :: "byte list" and i bound common :: byte and a b :: nat
  assume lt: "i < bound"
  then have "unat i < unat bound"
    by (simp add: word_less_nat_alt)
  moreover have "unat bound < 256"
    using unsigned_less [of bound] by simp
  moreover have "unat (i + 1) = (unat i + 1) mod 256"
    by (simp add: unat_word_ariths)
  ultimately show "((p, np, i + 1, bound, common + 1), (p, np, i, bound, common))
      \<in> measure (\<lambda>(p, np, i, bound, common). unat bound - unat i)"
    by simp
qed

declare common_loop.simps [simp del]

subsection \<open>Insert\<close>

text \<open>
  \<open>Insert\<close> walks the trie with a pointer \<open>current\<close> to the edge it looks at (first the
  root edge \<open>&t.root\<close>) and a pointer \<open>previous\<close>, first \<open>nil\<close>, which the \<open>nil\<close> case and the
  extension case set to \<open>current\<close> before they move on; the branch case and the leaf case
  leave \<open>previous\<close> as it is. The model is a recursion over the node under \<open>current\<close> that
  returns what the walk leaves in the trie:
  \<^item> \<open>Placed n\<close>: the edge \<open>current\<close> holds \<open>n\<close> when \<open>Insert\<close> returns;
  \<^item> \<open>Overwrite_Previous n\<close>: the walk executed \<open>*previous = &branch\<close>, so the edge that
    \<open>previous\<close> points to, an edge above \<open>current\<close>, holds \<open>n\<close> when \<open>Insert\<close> returns.
  The flag \<open>prev\<close> says whether \<open>previous\<close> is not \<open>nil\<close>.
\<close>

datatype outcome = Placed Node | Overwrite_Previous Node

text \<open>
  The case \<open>nil\<close>. At \<open>depth == maxDepth\<close> the new leaf is stored in \<open>*current\<close>. Otherwise
  the code builds the local variable \<open>extension\<close>, moves \<open>current\<close> to \<open>&extension.child\<close>
  and sets \<open>depth = maxDepth\<close>; the next iteration stores the leaf in \<open>extension.child\<close> and
  returns. No statement stores \<open>&extension\<close> in the edge the walk came from, so that edge
  still holds \<open>nil\<close>.
\<close>

definition new_leaf :: "ext \<Rightarrow> byte list \<Rightarrow> Payload \<Rightarrow> Node" where
  "new_leaf x p v = Leaf (ComputeCompactValue x p (Value v) 256) (Sum256 x (Value v))"

definition insert_nil :: "ext \<Rightarrow> byte list \<Rightarrow> Payload \<Rightarrow> byte \<Rightarrow> Node" where
  "insert_nil x p v depth = (if depth = maxDepth then new_leaf x p v else NilNode)"

text \<open>
  The case \<open>*Leaf\<close> stores \<open>nil\<close> in \<open>*current\<close> and runs the case \<open>nil\<close> on the same edge at
  the same depth. After a fork, \<open>current\<close> is the empty side of the new branch and \<open>depth\<close> is
  unchanged, so the case \<open>nil\<close> runs there too.
\<close>

fun insert_node :: "ext \<Rightarrow> byte list \<Rightarrow> Payload \<Rightarrow> bool \<Rightarrow> byte \<Rightarrow> Node \<Rightarrow> panic + outcome" where
  "insert_node x p v prev depth NilNode = Inr (Placed (insert_nil x p v depth))"
| "insert_node x p v prev depth (Leaf h k) = Inr (Placed (insert_nil x p v depth))"
| "insert_node x p v prev depth (Extension h d np cnt c) =
     (let available = (of_nat (length np) :: byte) in
      case common_loop p np depth (depth + cnt) 0 of
        Inl e \<Rightarrow> Inl e
      | Inr common \<Rightarrow>
          if common = available
          then (case insert_node x p v True (depth + available) c of
                  Inl e \<Rightarrow> Inl e
                | Inr (Placed c') \<Rightarrow> Inr (Placed (Extension h True np cnt c'))
                | Inr (Overwrite_Previous b) \<Rightarrow> Inr (Placed b))
          else
            (let other = (if available - common = 1 then c
                          else Extension 0 True np (available - common - 1) c)
             in if common = 0 \<and> \<not> prev then Inl NilPointerDereference
                else (case Bit np (unat common) of
                        Inl e \<Rightarrow> Inl e
                      | Inr b \<Rightarrow>
                          (let continued = insert_nil x p v depth;
                               branch = (if b = 0 then Branch 0 True other continued
                                         else Branch 0 True continued other)
                           in if common = 0 then Inr (Overwrite_Previous branch)
                              else Inr (Placed (Extension h True np common branch))))))"
| "insert_node x p v prev depth (Branch h d l r) =
     (case Bit p (unat depth) of
        Inl e \<Rightarrow> Inl e
      | Inr b \<Rightarrow>
          if b = 0
          then (case insert_node x p v prev (depth + 1) l of
                  Inl e \<Rightarrow> Inl e
                | Inr (Placed l') \<Rightarrow> Inr (Placed (Branch h True l' r))
                | Inr (Overwrite_Previous n) \<Rightarrow> Inr (Overwrite_Previous n))
          else (case insert_node x p v prev (depth + 1) r of
                  Inl e \<Rightarrow> Inl e
                | Inr (Placed r') \<Rightarrow> Inr (Placed (Branch h True l r'))
                | Inr (Overwrite_Previous n) \<Rightarrow> Inr (Overwrite_Previous n)))"

text \<open>
  \<open>Insert\<close> starts at the root edge with \<open>previous == nil\<close> and \<open>depth = 0\<close>. It never calls
  the store. With \<open>previous == nil\<close> the walk cannot execute \<open>*previous = &branch\<close> without
  a panic, which the last case records.
\<close>

definition Insert :: "ext \<Rightarrow> Trie \<Rightarrow> byte list \<Rightarrow> Payload \<Rightarrow> panic + Trie" where
  "Insert x t p v =
     (case insert_node x p v False 0 (root t) of
        Inl e \<Rightarrow> Inl e
      | Inr (Placed r) \<Rightarrow> Inr (t\<lparr>root := r\<rparr>)
      | Inr (Overwrite_Previous b) \<Rightarrow> Inl NilPointerDereference)"

text \<open>A sequence of insertions, stopping at the first panic.\<close>

fun Insert_all :: "ext \<Rightarrow> Trie \<Rightarrow> (byte list \<times> Payload) list \<Rightarrow> panic + Trie" where
  "Insert_all x t [] = Inr t"
| "Insert_all x t ((p, v) # ps) =
     (case Insert x t p v of Inl e \<Rightarrow> Inl e | Inr t' \<Rightarrow> Insert_all x t' ps)"

subsection \<open>read and UnsafeRead\<close>

text \<open>
  \<open>read\<close> returns \<open>nil\<close> (\<open>None\<close>) or the payload the store holds under \<open>node.Hash()\<close> of
  the leaf it reaches. In the extension case it advances \<open>depth\<close> by \<open>node.count\<close>.
\<close>

fun read_node :: "(hash32 \<rightharpoonup> Payload) \<Rightarrow> byte list \<Rightarrow> byte \<Rightarrow> Node \<Rightarrow> panic + Payload option" where
  "read_node s p depth (Branch h d l r) =
     (case Bit p (unat depth) of
        Inl e \<Rightarrow> Inl e
      | Inr b \<Rightarrow> if b = 0 then read_node s p (depth + 1) l else read_node s p (depth + 1) r)"
| "read_node s p depth (Extension h d np cnt c) =
     (let available = (of_nat (length np) :: byte) in
      case common_loop p np depth (depth + cnt) 0 of
        Inl e \<Rightarrow> Inl e
      | Inr common \<Rightarrow>
          if available \<noteq> common then Inr None
          else read_node s p (depth + cnt) c)"
| "read_node s p depth (Leaf h k) =
     (case s (leaf_Hash h k) of None \<Rightarrow> Inr None | Some payload \<Rightarrow> Inr (Some payload))"
| "read_node s p depth NilNode = Inr None"

definition read :: "Trie \<Rightarrow> byte list \<Rightarrow> panic + Payload option" where
  "read t p = read_node (store t) p 0 (root t)"


subsection \<open>Leaves\<close>

text \<open>
  \<open>Leaves\<close> uses the deque as a stack (\<open>PushBack\<close>, \<open>PopBack\<close>); the list below has the back
  of the deque at its head. The children of extensions and branches are pushed without a
  check, and \<open>queue.PopBack().(Node)\<close> on a \<open>nil\<close> interface value fails the type
  assertion, which panics. A leaf is returned as the pair of its fields.
\<close>

function Leaves_loop :: "Node list \<Rightarrow> (hash32 \<times> hash32) list \<Rightarrow> panic + (hash32 \<times> hash32) list" where
  "Leaves_loop [] leaves = Inr leaves"
| "Leaves_loop (NilNode # queue) leaves = Inl NilInterfaceConversion"
| "Leaves_loop (Leaf h k # queue) leaves = Leaves_loop queue (leaves @ [(h, k)])"
| "Leaves_loop (Extension h d np cnt c # queue) leaves = Leaves_loop (c # queue) leaves"
| "Leaves_loop (Branch h d l r # queue) leaves = Leaves_loop (r # l # queue) leaves"
  by pat_completeness auto
termination
  by (relation "measure (\<lambda>(queue, leaves). sum_list (map (\<lambda>n. 2 * size n + 1) queue))") auto

definition Leaves :: "Trie \<Rightarrow> panic + (hash32 \<times> hash32) list" where
  "Leaves t = (if RootNode t \<noteq> NilNode then Leaves_loop [RootNode t] [] else Leaves_loop [] [])"

subsection \<open>Auxiliary notions for the statements\<close>

text \<open>The leaves of a subtree, each as the pair of its \<open>hash\<close> and \<open>payload\<close> fields.\<close>

fun leaves_of :: "Node \<Rightarrow> (hash32 \<times> hash32) set" where
  "leaves_of NilNode = {}"
| "leaves_of (Leaf h k) = {(h, k)}"
| "leaves_of (Extension h d np cnt c) = leaves_of c"
| "leaves_of (Branch h d l r) = leaves_of l \<union> leaves_of r"

text \<open>
  Every extension of the subtree stores a slice of a whole \<open>ledger.Path\<close>, 32 bytes, as
  every extension that \<open>Insert\<close> builds does (\<open>path[:]\<close>, or the \<open>node.path\<close> of an older one).
\<close>

fun paths_sized :: "Node \<Rightarrow> bool" where
  "paths_sized NilNode = True"
| "paths_sized (Leaf h k) = True"
| "paths_sized (Extension h d np cnt c) = (length np = 32 \<and> paths_sized c)"
| "paths_sized (Branch h d l r) = (paths_sized l \<and> paths_sized r)"

fun held :: "outcome \<Rightarrow> Node" where
  "held (Placed n) = n"
| "held (Overwrite_Previous n) = n"

text \<open>
  Test tries: a chain of \<open>k\<close> branches along the all-zero path that ends in \<open>n\<close>, clean or
  dirty; with \<open>k = 255\<close> the node \<open>n\<close> sits at depth 255, where leaves belong.
\<close>

fun spine :: "nat \<Rightarrow> Node \<Rightarrow> Node" where
  "spine 0 n = n"
| "spine (Suc k) n = Branch 0 False (spine k n) NilNode"

fun dirty_spine :: "nat \<Rightarrow> Node \<Rightarrow> Node" where
  "dirty_spine 0 n = n"
| "dirty_spine (Suc k) n = Branch 0 True (dirty_spine k n) NilNode"

definition zero_path :: "byte list" where
  "zero_path = replicate 32 0"

definition ones_path :: "byte list" where
  "ones_path = replicate 32 255"




text \<open>Stand-ins for the hash functions, for evaluating the model on concrete inputs.\<close>

definition sample_ext :: ext where
  "sample_ext =
     \<lparr>ComputeCompactValue = (\<lambda>p v h. of_nat (length p + length v + h)),
      Sum256 = (\<lambda>v. of_nat (length v)),
      GetDefaultHashForHeight = (\<lambda>h. of_nat h),
      InteriorHash = (\<lambda>n. 0)\<rparr>"

section \<open>The component engine of \<open>engine/engine.go\<close>\<close>

text \<open>
  What the program does to its components is a trace of events. A component is known by
  the name it is logged under; its \<open>run\<close> and \<open>stop\<close> closures are the events \<open>Launched\<close> and
  \<open>Stopped\<close> of that name.
\<close>

datatype event = Launched string | Stopped string

fun launched :: "event list \<Rightarrow> string list" where
  "launched [] = []"
| "launched (Launched n # es) = n # launched es"
| "launched (Stopped n # es) = launched es"

fun stopped :: "event list \<Rightarrow> string list" where
  "stopped [] = []"
| "stopped (Launched n # es) = stopped es"
| "stopped (Stopped n # es) = n # stopped es"

record component =
  cname :: string

record Engine =
  components :: "component list"

definition New :: Engine where
  "New = \<lparr>components = []\<rparr>"

definition Component :: "Engine \<Rightarrow> string \<Rightarrow> Engine" where
  "Component e n = e\<lparr>components := components e @ [\<lparr>cname = n\<rparr>]\<rparr>"

text \<open>
  Modelled from the spec: the type \<open>component\<close> and its method \<open>Stop\<close> are not in this file;
  \<open>Stop\<close> invokes the stop routine the component was registered with.
\<close>

definition component_Stop :: "component \<Rightarrow> event" where
  "component_Stop c = Stopped (cname c)"

text \<open>
  \<open>Engine.Stop\<close>: \<open>for i := len(e.components) - 1; i >= 0; i--\<close>, with Go's \<open>int\<close>. The index
  stays between 0 and \<open>len(e.components) - 1\<close>.
\<close>

function Stop_loop :: "component list \<Rightarrow> int \<Rightarrow> event list" where
  "Stop_loop cs i = (if i \<ge> 0 then component_Stop (cs ! nat i) # Stop_loop cs (i - 1) else [])"
  by pat_completeness auto
termination
  by (relation "measure (\<lambda>(cs, i). nat (i + 1))") auto

declare Stop_loop.simps [simp del]

definition Engine_Stop :: "Engine \<Rightarrow> event list" where
  "Engine_Stop e = Stop_loop (components e) (int (length (components e)) - 1)"

section \<open>The live indexer's \<open>run\<close> of \<open>cmd/flow-dps-live/main.go\<close>\<close>

text \<open>
  \<open>run\<close> is a sequence of calls into other packages, each of which may fail, followed by
  the launch of four components, a wait, and their shutdown. The outcome of every
  fallible call is a field of the environment; \<open>read.First()\<close> returns a height,
  \<open>badger.ErrKeyNotFound\<close> or another error. Logging, the deferred \<open>Close\<close> calls and the
  flags that do not steer the control flow are left out. The goroutine that calls
  \<open>os.Exit(1)\<close> on a second interrupt during shutdown runs concurrently with the main
  goroutine and is not part of this model.
\<close>

datatype first_result = First_height nat | ErrKeyNotFound | First_error

record env =
  flagCheckpoint :: string
  ParseLevel_ok :: bool
  Open_index_ok :: bool
  Open_data_ok :: bool
  read_First :: first_result
  rand_Read_ok :: bool
  GenerateUnstakedNetworkingKey_ok :: bool
  SplitHostPort_ok :: bool
  ParseUint_ok :: bool
  DecodePublicKeyHex_ok :: bool
  NewConsensusFollower_ok :: bool
  Open_snapshot_ok :: bool
  ProtocolState_ok :: bool
  CatchupBlocks_ok :: bool
  NewClient_ok :: bool
  NewExecution_ok :: bool
  NewConsensus_ok :: bool
  Open_checkpoint_ok :: bool
  Listen_ok :: bool

definition success :: int where
  "success = 0"

definition failure :: int where
  "failure = 1"

text \<open>
  The components are created and launched in the order follower, mapper, API server,
  metrics server (\<open>go follower.Run\<close>, \<open>go mapper.Run\<close>, \<open>go apiServer.Run\<close>,
  \<open>go metricsServer.Run\<close>); after the \<open>select\<close> the main goroutine calls
  \<open>apiServer.Stop()\<close>, \<open>follower.Stop()\<close>, \<open>mapper.Stop()\<close>, \<open>metricsServer.Stop()\<close> and returns
  \<open>success\<close>. The names are the ones the components log under.
\<close>

definition run :: "env \<Rightarrow> int \<times> event list" where
  "run e =
     (if \<not> ParseLevel_ok e then (failure, [])
      else if \<not> Open_index_ok e then (failure, [])
      else if \<not> Open_data_ok e then (failure, [])
      else if read_First e = First_error then (failure, [])
      else
        (let empty = (read_First e = ErrKeyNotFound) in
         if empty \<and> flagCheckpoint e = [] then (failure, [])
         else if \<not> rand_Read_ok e then (failure, [])
         else if \<not> GenerateUnstakedNetworkingKey_ok e then (failure, [])
         else if \<not> SplitHostPort_ok e then (failure, [])
         else if \<not> ParseUint_ok e then (failure, [])
         else if \<not> DecodePublicKeyHex_ok e then (failure, [])
         else if \<not> NewConsensusFollower_ok e then (failure, [])
         else if \<not> Open_snapshot_ok e then (failure, [])
         else if \<not> ProtocolState_ok e then (failure, [])
         else if \<not> CatchupBlocks_ok e then (failure, [])
         else if \<not> NewClient_ok e then (failure, [])
         else if \<not> NewExecution_ok e then (failure, [])
         else if \<not> NewConsensus_ok e then (failure, [])
         else if empty \<and> \<not> Open_checkpoint_ok e then (failure, [])
         else if \<not> empty \<and> flagCheckpoint e \<noteq> [] \<and> \<not> Open_checkpoint_ok e then (failure, [])
         else if \<not> Listen_ok e then (failure, [])
         else
           (success,
            [Launched ''consensus_follower'', Launched ''mapper'', Launched ''api'',
             Launched ''metrics'',
             Stopped ''api'', Stopped ''consensus_follower'', Stopped ''mapper'',
             Stopped ''metrics''])))"

text \<open>\<open>main\<close> is \<open>os.Exit(run())\<close>: the process exit code.\<close>

definition main :: "env \<Rightarrow> int" where
  "main e = fst (run e)"

text \<open>Two environments for evaluation: every call succeeds, on an empty index.\<close>

definition bootstrap_env :: env where
  "bootstrap_env =
     \<lparr>flagCheckpoint = ''root.checkpoint'', ParseLevel_ok = True, Open_index_ok = True,
      Open_data_ok = True, read_First = ErrKeyNotFound, rand_Read_ok = True,
      GenerateUnstakedNetworkingKey_ok = True, SplitHostPort_ok = True, ParseUint_ok = True,
      DecodePublicKeyHex_ok = True, NewConsensusFollower_ok = True, Open_snapshot_ok = True,
      ProtocolState_ok = True, CatchupBlocks_ok = True, NewClient_ok = True,
      NewExecution_ok = True, NewConsensus_ok = True, Open_checkpoint_ok = True,
      Listen_ok = True\<rparr>"

definition no_checkpoint_env :: env where
  "no_checkpoint_env = bootstrap_env\<lparr>flagCheckpoint := []\<rparr>"

section \<open>Properties of the trie\<close>

subsection \<open>Insertion into the empty trie\<close>

lemma Insert_empty: "Insert x (NewEmptyTrie s) p v = Inr (NewEmptyTrie s)"
  by (simp add: Insert_def NewEmptyTrie_def insert_nil_def maxDepth_def)

lemma Insert_all_empty: "Insert_all x (NewEmptyTrie s) ps = Inr (NewEmptyTrie s)"
  by (induction ps) (auto simp: Insert_empty)

lemma read_empty: "read (NewEmptyTrie s) p = Inr None"
  by (simp add: read_def NewEmptyTrie_def)

lemma Leaves_empty: "Leaves (NewEmptyTrie s) = Inr []"
  by (simp add: Leaves_def RootNode_def NewEmptyTrie_def)

text \<open>
  Claim C1 says that after any sequence of insertions \<open>read(p)\<close> returns the payload last
  inserted at \<open>p\<close>. On the empty trie the walk of \<open>Insert\<close> builds its extension and its
  leaf outside the trie: the trie is the empty trie again and \<open>read\<close> returns \<open>nil\<close>,
  whatever the store holds.
\<close>

theorem C1_insert_into_empty_trie_is_lost:
  "Insert x (NewEmptyTrie s) p v = Inr (NewEmptyTrie s) \<and> read (NewEmptyTrie s) p = Inr None"
  by (simp add: Insert_empty read_empty)

text \<open>
  Claim C3: inserting the same set of (path, payload) pairs with distinct paths into an
  empty trie in two different orders succeeds both times and gives tries with equal root
  hashes.
\<close>

theorem C3_root_hash_independent_of_order:
  assumes "mset xs = mset ys" and "distinct (map fst xs)"
  shows "\<exists>t1 t2. Insert_all x (NewEmptyTrie s) xs = Inr t1
           \<and> Insert_all x (NewEmptyTrie s) ys = Inr t2
           \<and> RootHash x t1 = RootHash x t2"
  by (simp add: Insert_all_empty)

theorem C3_root_hash_independent_of_order_witness:
  "mset [(zero_path, Payload [] [1]), (ones_path, Payload [] [2])]
     = mset [(ones_path, Payload [] [2]), (zero_path, Payload [] [1])]
   \<and> distinct (map fst [(zero_path, Payload [] [1]), (ones_path, Payload [] [2])])
   \<and> (\<exists>t1 t2.
         Insert_all sample_ext (NewEmptyTrie Map.empty)
           [(zero_path, Payload [] [1]), (ones_path, Payload [] [2])] = Inr t1
       \<and> Insert_all sample_ext (NewEmptyTrie Map.empty)
           [(ones_path, Payload [] [2]), (zero_path, Payload [] [1])] = Inr t2
       \<and> RootHash sample_ext t1 = RootHash sample_ext t2)"
proof -
  have m: "mset [(zero_path, Payload [] [1]), (ones_path, Payload [] [2])]
             = mset [(ones_path, Payload [] [2]), (zero_path, Payload [] [1])]"
    by simp
  have d: "distinct (map fst [(zero_path, Payload [] [1]), (ones_path, Payload [] [2])])"
    by (simp add: zero_path_def ones_path_def)
  from m d C3_root_hash_independent_of_order [OF m d, of sample_ext Map.empty]
  show ?thesis by (intro conjI)
qed

text \<open>
  Claim C4 says that after inserting at a path and inserting again at the same path,
  \<open>read\<close> returns the new payload and \<open>Leaves()\<close> has one leaf per inserted path, one leaf
  after two insertions into an empty trie. The two insertions leave the empty trie
  empty: \<open>read\<close> returns \<open>nil\<close> and \<open>Leaves()\<close> has no leaf.
\<close>

theorem C4_reinsert_into_empty_trie_has_no_leaf:
  "Insert_all x (NewEmptyTrie s) [(p, v1), (p, v2)] = Inr (NewEmptyTrie s)
   \<and> read (NewEmptyTrie s) p = Inr None
   \<and> Leaves (NewEmptyTrie s) = Inr []"
  by (simp add: Insert_empty read_empty Leaves_empty)

text \<open>
  Claim C6: the root hash of the empty trie is the default hash for height 256, and
  \<open>read\<close> returns \<open>nil\<close> for every path.
\<close>

theorem C6_empty_trie:
  "RootHash x (NewEmptyTrie s) = GetDefaultHashForHeight x 256
   \<and> read (NewEmptyTrie s) p = Inr None"
  by (simp add: RootHash_def NewEmptyTrie_def NodeMaxHeight_def read_def)

subsection \<open>The extension case\<close>

lemma common_loop_zero_path:
  "common_loop (replicate 32 0) (replicate 32 0) 0 255 0 = Inr 255"
  by code_simp

text \<open>
  Claim C2 says that \<open>available\<close> is the extension's bit count and that an extension whose
  bits all agree with the inserted path is only marked dirty and descended. The code
  takes \<open>available\<close> from \<open>len(node.path)\<close>, the 32 bytes of the path slice. At the root
  extension of a trie that holds the all-zero path alone (\<open>count = 255\<close>), inserting the
  all-zero path finds 255 common bits of 255, compares 255 with 32, and forks: the
  extension gets a new branch as its child, with a new extension of count
  \<open>32 - 255 - 1 = 32\<close> (in \<open>uint8\<close>) above the old leaf.
\<close>

theorem C2_full_match_forks:
  "common_loop zero_path zero_path 0 (0 + 255) 0 = Inr 255
   \<and> Insert x (NewTrie (Extension h False zero_path 255 (Leaf a b)) s) zero_path v
       = Inr (NewTrie
               (Extension h True zero_path 255
                 (Branch 0 True (Extension 0 True zero_path 32 (Leaf a b)) NilNode)) s)"
  by (simp add: zero_path_def Insert_def NewTrie_def common_loop_zero_path Bit_def
        insert_nil_def maxDepth_def)

subsection \<open>The leaf case of read\<close>

text \<open>
  Claim C5 says that \<open>read\<close> fetches the payload under the leaf's payload key and returns
  \<open>nil\<close> exactly when that lookup misses. The code looks up \<open>node.Hash()\<close>. For a leaf at
  depth 255 with hash 1 and payload key 2: when the store holds the payload under the
  payload key, \<open>read\<close> returns \<open>nil\<close>; when it holds it under the leaf hash only, \<open>read\<close>
  returns the payload.
\<close>

theorem C5_store_is_read_by_leaf_hash:
  "read (NewTrie (spine 255 (Leaf 1 2)) [2 \<mapsto> Payload [] [1]]) zero_path = Inr None
   \<and> read (NewTrie (spine 255 (Leaf 1 2)) [1 \<mapsto> Payload [] [1]]) zero_path
       = Inr (Some (Payload [] [1]))"
  by code_simp

subsection \<open>Insert and the store\<close>

lemma insert_nil_leaves:
  "leaves_of (insert_nil x p v depth)
     \<subseteq> {(ComputeCompactValue x p (Value v) 256, Sum256 x (Value v))}"
  by (simp add: insert_nil_def new_leaf_def)

text \<open>
  Whatever the walk leaves in the trie holds no leaf but the old ones and the new one:
  computation induction over \<open>insert_node\<close>.
\<close>

lemma insert_node_leaves:
  "insert_node x p v prev depth n = Inr out \<Longrightarrow>
   leaves_of (held out)
     \<subseteq> insert (ComputeCompactValue x p (Value v) 256, Sum256 x (Value v)) (leaves_of n)"
proof (induction x p v prev depth n arbitrary: out rule: insert_node.induct)
  case (1 x p v prev depth)
  then show ?case using insert_nil_leaves [of x p v depth] by auto
next
  case (2 x p v prev depth h k)
  then show ?case using insert_nil_leaves [of x p v depth] by auto
next
  case (3 x p v prev depth h d np cnt c)
  show ?case
  proof (cases "common_loop p np depth (depth + cnt) 0")
    case (Inl e)
    with "3.prems" show ?thesis by (simp add: Let_def)
  next
    case (Inr common)
    note loop = Inr
    show ?thesis
    proof (cases "common = of_nat (length np)")
      case True
      show ?thesis
      proof (cases "insert_node x p v True (depth + of_nat (length np)) c")
        case (Inl e)
        with "3.prems" loop True show ?thesis by (simp add: Let_def)
      next
        case (Inr below)
        from "3.IH" [OF refl loop True Inr]
        have "leaves_of (held below)
            \<subseteq> insert (ComputeCompactValue x p (Value v) 256, Sum256 x (Value v)) (leaves_of c)" .
        moreover from "3.prems" loop True Inr
        have "leaves_of (held out) = leaves_of (held below)"
          by (cases below) (auto simp: Let_def)
        ultimately show ?thesis by simp
      qed
    next
      case False
      with "3.prems" loop show ?thesis
        using insert_nil_leaves [of x p v depth]
        by (auto simp: Let_def split: sum.splits if_splits)
    qed
  qed
next
  case (4 x p v prev depth h d l r)
  show ?case
  proof (cases "Bit p (unat depth)")
    case (Inl e)
    with "4.prems" show ?thesis by simp
  next
    case (Inr b)
    note bit = Inr
    show ?thesis
    proof (cases "b = 0")
      case True
      show ?thesis
      proof (cases "insert_node x p v prev (depth + 1) l")
        case (Inl e)
        with "4.prems" bit True show ?thesis by simp
      next
        case (Inr below)
        from "4.IH"(1) [OF bit True Inr]
        have "leaves_of (held below)
            \<subseteq> insert (ComputeCompactValue x p (Value v) 256, Sum256 x (Value v)) (leaves_of l)" .
        moreover from "4.prems" bit True Inr
        have "leaves_of (held out) \<subseteq> leaves_of (held below) \<union> leaves_of r"
          by (cases below) auto
        ultimately show ?thesis by auto
      qed
    next
      case False
      show ?thesis
      proof (cases "insert_node x p v prev (depth + 1) r")
        case (Inl e)
        with "4.prems" bit False show ?thesis by simp
      next
        case (Inr below)
        from "4.IH"(2) [OF bit False Inr]
        have "leaves_of (held below)
            \<subseteq> insert (ComputeCompactValue x p (Value v) 256, Sum256 x (Value v)) (leaves_of r)" .
        moreover from "4.prems" bit False Inr
        have "leaves_of (held out) \<subseteq> leaves_of l \<union> leaves_of (held below)"
          by (cases below) auto
        ultimately show ?thesis by auto
      qed
    qed
  qed
qed

lemma Insert_spine:
  "Insert x (NewTrie (spine 255 NilNode) s) zero_path v
     = Inr (NewTrie (dirty_spine 255 (new_leaf x zero_path v)) s)"
  by code_simp

text \<open>
  Claim C9: \<open>Insert\<close> never writes to the payload store. The trie that \<open>Insert\<close> returns
  refers to the same store with the same contents, and the only leaf it can hold that
  the trie did not hold before is the new one, whose payload field is the content hash
  \<open>blake3.Sum256(payload.Value)\<close>.
\<close>

theorem C9_Insert_leaves_store_alone:
  assumes "Insert x t p v = Inr t'"
  shows "store t' = store t \<and> Store t' = Store t
         \<and> leaves_of (root t')
             \<subseteq> insert (ComputeCompactValue x p (Value v) 256, Sum256 x (Value v))
                 (leaves_of (root t))"
proof (cases "insert_node x p v False 0 (root t)")
  case (Inl e)
  with assms show ?thesis by (simp add: Insert_def)
next
  case (Inr out)
  show ?thesis
  proof (cases out)
    case (Placed r)
    with assms Inr have t': "t' = t\<lparr>root := r\<rparr>"
      by (simp add: Insert_def)
    from insert_node_leaves [OF Inr] Placed
    have "leaves_of r
        \<subseteq> insert (ComputeCompactValue x p (Value v) 256, Sum256 x (Value v))
            (leaves_of (root t))"
      by simp
    with t' show ?thesis by (simp add: Store_def)
  next
    case (Overwrite_Previous b)
    with assms Inr show ?thesis by (simp add: Insert_def)
  qed
qed

theorem C9_Insert_leaves_store_alone_witness:
  "Insert sample_ext (NewTrie (spine 255 NilNode) [7 \<mapsto> Payload [] [9]]) zero_path (Payload [] [1])
     = Inr (NewTrie (dirty_spine 255 (new_leaf sample_ext zero_path (Payload [] [1])))
             [7 \<mapsto> Payload [] [9]])
   \<and> store (NewTrie (dirty_spine 255 (new_leaf sample_ext zero_path (Payload [] [1])))
              [7 \<mapsto> Payload [] [9]])
       = store (NewTrie (spine 255 NilNode) [7 \<mapsto> Payload [] [9]])"
proof -
  have ins: "Insert sample_ext (NewTrie (spine 255 NilNode) [7 \<mapsto> Payload [] [9]]) zero_path
               (Payload [] [1])
             = Inr (NewTrie (dirty_spine 255 (new_leaf sample_ext zero_path (Payload [] [1])))
                     [7 \<mapsto> Payload [] [9]])"
    by (rule Insert_spine)
  from C9_Insert_leaves_store_alone [OF ins]
  have "store (NewTrie (dirty_spine 255 (new_leaf sample_ext zero_path (Payload [] [1])))
                [7 \<mapsto> Payload [] [9]])
          = store (NewTrie (spine 255 NilNode) [7 \<mapsto> Payload [] [9]])"
    by (rule conjunct1)
  with ins show ?thesis by (intro conjI)
qed

subsection \<open>UnsafeRead\<close>






text \<open>
  \<open>Insert\<close> keeps the extensions' paths at 32 bytes: the only paths it stores in the trie
  are the \<open>node.path\<close> of extensions that are there already. Computation induction over
  \<open>insert_node\<close>.
\<close>

lemma insert_nil_sized: "paths_sized (insert_nil x p v depth)"
  by (simp add: insert_nil_def new_leaf_def)

lemma insert_node_sized:
  "insert_node x p v prev depth n = Inr out \<Longrightarrow> paths_sized n \<Longrightarrow> paths_sized (held out)"
proof (induction x p v prev depth n arbitrary: out rule: insert_node.induct)
  case (1 x p v prev depth)
  then show ?case using insert_nil_sized [of x p v depth] by auto
next
  case (2 x p v prev depth h k)
  then show ?case using insert_nil_sized [of x p v depth] by auto
next
  case (3 x p v prev depth h d np cnt c)
  from "3.prems"(2) have np: "length np = 32" and c: "paths_sized c"
    by simp_all
  show ?case
  proof (cases "common_loop p np depth (depth + cnt) 0")
    case (Inl e)
    with "3.prems" show ?thesis by (simp add: Let_def)
  next
    case (Inr common)
    note loop = Inr
    show ?thesis
    proof (cases "common = of_nat (length np)")
      case True
      show ?thesis
      proof (cases "insert_node x p v True (depth + of_nat (length np)) c")
        case (Inl e)
        with "3.prems" loop True show ?thesis by (simp add: Let_def)
      next
        case (Inr below)
        from "3.IH" [OF refl loop True Inr c]
        have "paths_sized (held below)" .
        moreover from "3.prems"(1) loop True Inr
        have "held out = held below \<or> held out = Extension h True np cnt (held below)"
          by (cases below) (auto simp: Let_def)
        ultimately show ?thesis using np by auto
      qed
    next
      case False
      with "3.prems"(1) loop np c show ?thesis
        using insert_nil_sized [of x p v depth]
        by (auto simp: Let_def split: sum.splits if_splits)
    qed
  qed
next
  case (4 x p v prev depth h d l r)
  from "4.prems"(2) have l: "paths_sized l" and r: "paths_sized r"
    by simp_all
  show ?case
  proof (cases "Bit p (unat depth)")
    case (Inl e)
    with "4.prems" show ?thesis by simp
  next
    case (Inr b)
    note bit = Inr
    show ?thesis
    proof (cases "b = 0")
      case True
      show ?thesis
      proof (cases "insert_node x p v prev (depth + 1) l")
        case (Inl e)
        with "4.prems" bit True show ?thesis by simp
      next
        case (Inr below)
        from "4.IH"(1) [OF bit True Inr l]
        have "paths_sized (held below)" .
        moreover from "4.prems"(1) bit True Inr
        have "held out = held below \<or> held out = Branch h True (held below) r"
          by (cases below) auto
        ultimately show ?thesis using r by auto
      qed
    next
      case False
      show ?thesis
      proof (cases "insert_node x p v prev (depth + 1) r")
        case (Inl e)
        with "4.prems" bit False show ?thesis by simp
      next
        case (Inr below)
        from "4.IH"(2) [OF bit False Inr r]
        have "paths_sized (held below)" .
        moreover from "4.prems"(1) bit False Inr
        have "held out = held below \<or> held out = Branch h True l (held below)"
          by (cases below) auto
        ultimately show ?thesis using l by auto
      qed
    qed
  qed
qed

lemma Insert_sized:
  "Insert x t p v = Inr t' \<Longrightarrow> paths_sized (root t) \<Longrightarrow> paths_sized (root t')"
proof (cases "insert_node x p v False 0 (root t)")
  case (Inl e)
  assume "Insert x t p v = Inr t'"
  with Inl show ?thesis by (simp add: Insert_def)
next
  case (Inr out)
  assume ins: "Insert x t p v = Inr t'" and sized: "paths_sized (root t)"
  from insert_node_sized [OF Inr sized] have "paths_sized (held out)" .
  with ins Inr show ?thesis
    by (cases out) (auto simp: Insert_def)
qed

lemma Insert_all_sized:
  "Insert_all x t ps = Inr t' \<Longrightarrow> paths_sized (root t) \<Longrightarrow> paths_sized (root t')"
proof (induction ps arbitrary: t)
  case Nil
  then show ?case by simp
next
  case (Cons pv ps)
  obtain p v where pv: "pv = (p, v)" by (cases pv)
  show ?case
  proof (cases "Insert x t p v")
    case (Inl e)
    with Cons.prems pv show ?thesis by simp
  next
    case (Inr t1)
    from Insert_sized [OF Inr Cons.prems(2)] have "paths_sized (root t1)" .
    moreover from Cons.prems(1) pv Inr have "Insert_all x t1 ps = Inr t'" by simp
    ultimately show ?thesis by (rule Cons.IH [rotated])
  qed
qed




section \<open>Properties of the engine and of the indexer's run\<close>

lemma Stop_loop_take:
  "n \<le> length cs \<Longrightarrow> Stop_loop cs (int n - 1) = map component_Stop (rev (take n cs))"
proof (induction n)
  case 0
  then show ?case by (simp add: Stop_loop.simps)
next
  case (Suc n)
  then have "Stop_loop cs (int (Suc n) - 1) = component_Stop (cs ! n) # Stop_loop cs (int n - 1)"
    by (subst Stop_loop.simps) simp
  with Suc show ?case by (simp add: take_Suc_conv_app_nth)
qed

lemma Engine_Stop_rev: "Engine_Stop e = map component_Stop (rev (components e))"
  by (simp add: Engine_Stop_def Stop_loop_take)

lemma components_registered:
  "components (foldl Component e names) = components e @ map (\<lambda>n. \<lparr>cname = n\<rparr>) names"
  by (induction names arbitrary: e) (simp_all add: Component_def)

lemma Engine_Stop_registered:
  "Engine_Stop (foldl Component New names) = map Stopped (rev names)"
  by (simp add: Engine_Stop_rev components_registered New_def rev_map component_Stop_def comp_def)

text \<open>
  A run ends in one of two ways: \<open>failure\<close> before any component exists, or \<open>success\<close>
  after launch and shutdown.
\<close>

lemma run_cases:
  "run e = (failure, []) \<or> run e = (success,
     [Launched ''consensus_follower'', Launched ''mapper'', Launched ''api'',
      Launched ''metrics'',
      Stopped ''api'', Stopped ''consensus_follower'', Stopped ''mapper'', Stopped ''metrics''])"
  unfolding run_def Let_def
  by (simp only: if_split [where P = "\<lambda>r. r = (failure, []) \<or> r = (success, _)"] simp_thms)

lemma run_success_events:
  "fst (run e) = success \<Longrightarrow>
   snd (run e) =
     [Launched ''consensus_follower'', Launched ''mapper'', Launched ''api'',
      Launched ''metrics'',
      Stopped ''api'', Stopped ''consensus_follower'', Stopped ''mapper'', Stopped ''metrics'']"
  using run_cases [of e] by (auto simp: success_def failure_def)

lemma run_without_checkpoint:
  "read_First e = ErrKeyNotFound \<Longrightarrow> flagCheckpoint e = [] \<Longrightarrow> run e = (failure, [])"
  unfolding run_def Let_def
  by (simp only: if_split [where P = "\<lambda>r. r = (failure, [])"] simp_thms
        first_result.distinct if_True if_False)

lemma run_bootstrap_env:
  "run bootstrap_env = (success,
     [Launched ''consensus_follower'', Launched ''mapper'', Launched ''api'',
      Launched ''metrics'',
      Stopped ''api'', Stopped ''consensus_follower'', Stopped ''mapper'', Stopped ''metrics''])"
  by (simp add: run_def bootstrap_env_def)

text \<open>
  Claim C7: when the index database is empty (\<open>read.First()\<close> reports
  \<open>badger.ErrKeyNotFound\<close>) and no checkpoint path is given, the process exits with code 1
  and no component is launched or stopped; \<open>success\<close> is 0 and \<open>failure\<close> is 1, and any run
  exits with code 0 exactly when it went through launch and shutdown of the four
  components.
\<close>

theorem C7_missing_checkpoint_is_fatal:
  assumes "read_First e = ErrKeyNotFound" and "flagCheckpoint e = []"
  shows "main e = 1 \<and> snd (run e) = [] \<and> success = 0 \<and> failure = 1
         \<and> (main e' = 0) = (launched (snd (run e'))
               = [''consensus_follower'', ''mapper'', ''api'', ''metrics''])"
proof -
  from assms have "run e = (failure, [])"
    by (rule run_without_checkpoint)
  moreover have "(main e' = 0) = (launched (snd (run e'))
      = [''consensus_follower'', ''mapper'', ''api'', ''metrics''])"
    using run_cases [of e'] by (auto simp: main_def success_def failure_def)
  ultimately show ?thesis
    by (simp add: main_def success_def failure_def)
qed

theorem C7_missing_checkpoint_is_fatal_witness:
  "read_First no_checkpoint_env = ErrKeyNotFound \<and> flagCheckpoint no_checkpoint_env = []
   \<and> main no_checkpoint_env = 1 \<and> snd (run no_checkpoint_env) = []
   \<and> main bootstrap_env = 0"
proof -
  have first: "read_First no_checkpoint_env = ErrKeyNotFound"
    by (simp add: no_checkpoint_env_def bootstrap_env_def)
  have flag: "flagCheckpoint no_checkpoint_env = []"
    by (simp add: no_checkpoint_env_def)
  have "launched (snd (run bootstrap_env)) = [''consensus_follower'', ''mapper'', ''api'', ''metrics'']"
    by (simp add: run_bootstrap_env)
  with first flag C7_missing_checkpoint_is_fatal [OF first flag, of bootstrap_env]
  show ?thesis by simp
qed

text \<open>
  Claim C8 says that shutdown stops the components in reverse registration order, namely
  API server, consensus follower, mapper, metrics. In \<open>run\<close> the order of the stops is not
  the reverse of the order in which the components are created and launched.
\<close>

theorem C8_stop_order_is_not_reverse_launch_order:
  "stopped (snd (run bootstrap_env)) \<noteq> rev (launched (snd (run bootstrap_env)))"
  by (simp add: run_bootstrap_env)

text \<open>
  Claim C8, amended: a run that reaches shutdown launches follower, mapper, API server
  and metrics server in this order and then stops API server, follower, mapper and
  metrics server in this fixed order, each component exactly once; and \<open>Engine.Stop\<close>
  invokes the stop routines of the components registered with \<open>Component\<close> in reverse
  registration order, each exactly once.
\<close>

theorem C8_shutdown_order:
  assumes "main e = success"
  shows "launched (snd (run e)) = [''consensus_follower'', ''mapper'', ''api'', ''metrics'']
         \<and> stopped (snd (run e)) = [''api'', ''consensus_follower'', ''mapper'', ''metrics'']
         \<and> distinct (stopped (snd (run e)))
         \<and> set (stopped (snd (run e))) = set (launched (snd (run e)))
         \<and> Engine_Stop (foldl Component New names) = map Stopped (rev names)"
proof -
  from assms have "fst (run e) = success"
    by (simp add: main_def)
  from run_success_events [OF this] show ?thesis
    by (auto simp: Engine_Stop_registered)
qed

theorem C8_shutdown_order_witness:
  "main bootstrap_env = success
   \<and> stopped (snd (run bootstrap_env)) = [''api'', ''consensus_follower'', ''mapper'', ''metrics'']
   \<and> Engine_Stop (foldl Component New [''first'', ''second'', ''third''])
       = [Stopped ''third'', Stopped ''second'', Stopped ''first'']"
proof -
  have ok: "main bootstrap_env = success"
    by (simp add: main_def run_bootstrap_env)
  with C8_shutdown_order [OF ok, of "[''first'', ''second'', ''third'']"]
  show ?thesis by simp
qed

end
